theory Spec2Isabelle
  imports Main
begin

section \<open>Raw storage and object lifetime\<close>

text \<open>
  \<open>queue.h\<close> keeps its elements in a slab obtained from \<open>operator new\<close> "without
  constructing": an element starts to live in a slot by placement new and stops living
  there by an explicit destructor call. A slot is therefore either raw storage or holds a
  live object. \<open>Raw\<close> also stands for the indeterminate content read from such storage;
  copying it yields indeterminate content again.
\<close>

datatype 'a slot = Raw | Live 'a

text \<open>
  The accesses that begin, change or end the life of an object are recorded in the order
  the program makes them, each with the block and the element offset from the block's
  base pointer (an \<open>int\<close>, as in \<open>m_data + i\<close>; it may fall outside the block).
\<close>

datatype event = PlacementNew nat int | Assign nat int | Destroy nat int

text \<open>
  The free store: \<open>cells h p i\<close> is the slot at offset \<open>i\<close> from the base of block \<open>p\<close>,
  \<open>brk\<close> counts the blocks handed out so far (the next block gets this address),
  \<open>avail\<close> is the number of bytes the allocator can still grant.
\<close>

record 'a heap =
  cells :: "nat \<Rightarrow> int \<Rightarrow> 'a slot"
  brk :: nat
  avail :: nat
  trace :: "event list"

datatype errc = operation_would_block

datatype error = bad_alloc | system_error errc string

text \<open>
  \<open>operator new(n)\<close>: a fresh block of raw storage, or \<open>std::bad_alloc\<close> when the
  request cannot be granted.
\<close>

definition operator_new :: "nat \<Rightarrow> 'a heap \<Rightarrow> error + (nat \<times> 'a heap)" where
  "operator_new n h =
     (if n \<le> avail h
      then Inr (brk h, h\<lparr>cells := (cells h)(brk h := (\<lambda>i. Raw)),
                           brk := Suc (brk h),
                           avail := avail h - n\<rparr>)
      else Inl bad_alloc)"

text \<open>
  \<open>size * sizeof(T)\<close> with \<open>int size\<close>: the operand is converted to \<open>size_t\<close> and the
  product is taken in \<open>size_t\<close>, 64 bits wide, so both steps wrap modulo \<open>2 ^ 64\<close>.
\<close>

definition alloc_request :: "int \<Rightarrow> nat \<Rightarrow> nat" where
  "alloc_request size' sizeof_T = nat (((size' mod 2 ^ 64) * int sizeof_T) mod 2 ^ 64)"

text \<open>
  A parameter of type \<open>const T&\<close> is bound by the caller either to an object outside the
  free store (a temporary, a variable of the caller), given by its value, or to the slot
  at an offset of a block, as in \<open>q.push(*(q.data() + i))\<close>. Its value is what the storage
  referred to holds at the moment the function reads it.
\<close>

datatype 'a cref = Object 'a | Element nat int

definition value_of :: "'a heap \<Rightarrow> 'a cref \<Rightarrow> 'a slot" where
  "value_of h r = (case r of Object v \<Rightarrow> Live v | Element p i \<Rightarrow> cells h p i)"

text \<open>\<open>new (p + i) T(v)\<close>, \<open>*(p + i) = v\<close> and \<open>(p + i)->~T()\<close>.\<close>

definition placement_new :: "nat \<Rightarrow> int \<Rightarrow> 'a slot \<Rightarrow> 'a heap \<Rightarrow> 'a heap" where
  "placement_new p i v h =
     h\<lparr>cells := (cells h)(p := (cells h p)(i := v)), trace := trace h @ [PlacementNew p i]\<rparr>"

definition assign :: "nat \<Rightarrow> int \<Rightarrow> 'a slot \<Rightarrow> 'a heap \<Rightarrow> 'a heap" where
  "assign p i v h =
     h\<lparr>cells := (cells h)(p := (cells h p)(i := v)), trace := trace h @ [Assign p i]\<rparr>"

definition destroy :: "nat \<Rightarrow> int \<Rightarrow> 'a heap \<Rightarrow> 'a heap" where
  "destroy p i h =
     h\<lparr>cells := (cells h)(p := (cells h p)(i := Raw)), trace := trace h @ [Destroy p i]\<rparr>"

section \<open>The class \<open>Queue<T>\<close>\<close>

text \<open>
  The data members. \<open>m_data\<close> is the base pointer of the slab (a block of the free
  store); \<open>m_filled\<close> and \<open>m_capacity\<close> are C++ \<open>int\<close>s. They are modelled as \<open>int\<close>:
  the code increments \<open>m_filled\<close> only below \<open>m_capacity\<close> and its loop counters only
  below \<open>m_filled\<close>, so no operation of the class overflows.
  The mutex and the condition variable make each member function one atomic step; a
  member function is modelled as that step.
\<close>

record queue =
  m_data :: nat
  m_filled :: int
  m_capacity :: int

text \<open>
  \<open>Queue(int size)\<close>. The second argument is \<open>sizeof(T)\<close>. When \<open>operator new\<close> throws,
  no object comes to exist.
\<close>

definition Queue :: "nat \<Rightarrow> int \<Rightarrow> 'a heap \<Rightarrow> error + (queue \<times> 'a heap)" where
  "Queue sizeof_T size' h =
     (case operator_new (alloc_request size' sizeof_T) h of
        Inl e \<Rightarrow> Inl e
      | Inr (p, h') \<Rightarrow> Inr (\<lparr>m_data = p, m_filled = 0, m_capacity = size'\<rparr>, h'))"

text \<open>
  The loop of the copy constructor,
  \<open>for (int i = 0; i < m_filled; i++) new (m_data + i) T(*(src.m_data + i));\<close>
\<close>

function copy_loop :: "nat \<Rightarrow> nat \<Rightarrow> int \<Rightarrow> int \<Rightarrow> 'a heap \<Rightarrow> 'a heap" where
  "copy_loop dst src i n h =
     (if i < n then copy_loop dst src (i + 1) n (placement_new dst i (cells h src i) h)
      else h)"
  by pat_completeness auto
termination
  by (relation "measure (\<lambda>(dst, src, i, n, h). nat (n - i))") auto

text \<open>\<open>Queue(const Queue &src)\<close>.\<close>

definition Queue_copy :: "nat \<Rightarrow> queue \<Rightarrow> 'a heap \<Rightarrow> error + (queue \<times> 'a heap)" where
  "Queue_copy sizeof_T src h =
     (case operator_new (alloc_request (m_capacity src) sizeof_T) h of
        Inl e \<Rightarrow> Inl e
      | Inr (p, h') \<Rightarrow>
          Inr (\<lparr>m_data = p, m_filled = m_filled src, m_capacity = m_capacity src\<rparr>,
               copy_loop p (m_data src) 0 (m_filled src) h'))"

text \<open>
  The loop shared by \<open>push\<close>, \<open>pop\<close> and \<open>popWithTimeout\<close>,
  \<open>for (int i = 1; i < m_filled; i++) *(m_data + i - 1) = *(m_data + i);\<close>
\<close>

function shift_loop :: "nat \<Rightarrow> int \<Rightarrow> int \<Rightarrow> 'a heap \<Rightarrow> 'a heap" where
  "shift_loop p i n h =
     (if i < n then shift_loop p (i + 1) n (assign p (i - 1) (cells h p i) h)
      else h)"
  by pat_completeness auto
termination
  by (relation "measure (\<lambda>(p, i, n, h). nat (n - i))") auto

text \<open>
  \<open>void push(const T& element)\<close>. The parameter is a reference: the first branch reads
  it before anything is written, the second branch reads it after the loop has run.
\<close>

definition push :: "'a cref \<Rightarrow> queue \<Rightarrow> 'a heap \<Rightarrow> queue \<times> 'a heap" where
  "push element q h =
     (if m_filled q < m_capacity q
      then (q\<lparr>m_filled := m_filled q + 1\<rparr>,
            placement_new (m_data q) (m_filled q) (value_of h element) h)
      else (let h1 = shift_loop (m_data q) 1 (m_filled q) h
            in (q, assign (m_data q) (m_filled q - 1) (value_of h1 element) h1)))"

text \<open>
  \<open>T pop()\<close>. The wait ends when \<open>m_filled != 0\<close>; with no other thread pushing, a call
  on an empty queue never returns, which is the value \<open>None\<close>.
\<close>

definition pop :: "queue \<Rightarrow> 'a heap \<Rightarrow> ('a slot \<times> queue \<times> 'a heap) option" where
  "pop q h =
     (if m_filled q \<noteq> 0
      then (let popped = cells h (m_data q) 0;
                h1 = shift_loop (m_data q) 1 (m_filled q) h;
                h2 = destroy (m_data q) (m_filled q) h1
            in Some (popped, q\<lparr>m_filled := m_filled q - 1\<rparr>, h2))
      else None)"

text \<open>
  \<open>T popWithTimeout(int milliseconds_val)\<close>. \<open>wait_for\<close> returns the value of the
  predicate \<open>m_filled != 0\<close> when the wait is over; with no other thread pushing it is
  the value on entry. The result is the exception or the popped element, with the
  queue and the free store as the call leaves them.
\<close>

definition popWithTimeout ::
  "int \<Rightarrow> queue \<Rightarrow> 'a heap \<Rightarrow> (error + 'a slot) \<times> queue \<times> 'a heap" where
  "popWithTimeout milliseconds_val q h =
     (let not_empty = (m_filled q \<noteq> 0)
      in if \<not> not_empty
         then (Inl (system_error operation_would_block ''Queue: pop() timeout''), q, h)
         else (let popped = cells h (m_data q) 0;
                   h1 = shift_loop (m_data q) 1 (m_filled q) h;
                   h2 = destroy (m_data q) (m_filled q) h1
               in (Inr popped, q\<lparr>m_filled := m_filled q - 1\<rparr>, h2)))"

text \<open>The getters \<open>count()\<close>, \<open>size()\<close> and \<open>data()\<close>.\<close>

definition count :: "queue \<Rightarrow> int" where
  "count q = m_filled q"

definition size_q :: "queue \<Rightarrow> int" where
  "size_q q = m_capacity q"

definition data :: "queue \<Rightarrow> nat" where
  "data q = m_data q"

section \<open>Clients\<close>

text \<open>
  What the tests read, \<open>*(queue.data() + i)\<close> for \<open>i\<close> from \<open>0\<close> below \<open>queue.count()\<close>.
\<close>

definition deref :: "'a heap \<Rightarrow> nat \<Rightarrow> int \<Rightarrow> 'a slot" where
  "deref h p i = cells h p i"

definition contents :: "queue \<Rightarrow> 'a heap \<Rightarrow> 'a slot list" where
  "contents q h = map (\<lambda>k. deref h (data q) (int k)) [0..<nat (count q)]"

text \<open>
  A client calling the member functions of one queue in sequence. The state is what the
  calls have returned so far, the queue and the free store. \<open>Push x\<close> is \<open>push\<close> with an
  object of the caller, \<open>PushRef p i\<close> is \<open>push(*(p + i))\<close>, with the object living in slot
  \<open>i\<close> of block \<open>p\<close>, which may be a slot of the queue itself. A \<open>pop\<close> that never returns
  ends the run with \<open>None\<close>, and so does a \<open>PushRef\<close> to raw storage, where there is no
  object to refer to; the exception of \<open>popWithTimeout\<close> is caught and recorded.
\<close>

datatype 'a call = Push 'a | PushRef nat int | Pop | PopWithTimeout int

type_synonym 'a state = "(error + 'a slot) list \<times> queue \<times> 'a heap"

fun step :: "'a call \<Rightarrow> 'a state \<Rightarrow> 'a state option" where
  "step (Push x) (out, q, h) =
     (case push (Object x) q h of (q', h') \<Rightarrow> Some (out, q', h'))"
| "step (PushRef p i) (out, q, h) =
     (case cells h p i of
        Raw \<Rightarrow> None
      | Live v \<Rightarrow> (case push (Element p i) q h of (q', h') \<Rightarrow> Some (out, q', h')))"
| "step Pop (out, q, h) =
     (case pop q h of None \<Rightarrow> None | Some (v, q', h') \<Rightarrow> Some (out @ [Inr v], q', h'))"
| "step (PopWithTimeout ms) (out, q, h) =
     (case popWithTimeout ms q h of (r, q', h') \<Rightarrow> Some (out @ [r], q', h'))"

fun run :: "'a call list \<Rightarrow> 'a state \<Rightarrow> 'a state option" where
  "run [] s = Some s"
| "run (c # cs) s = (case step c s of None \<Rightarrow> None | Some s' \<Rightarrow> run cs s')"

definition returned :: "'a state \<Rightarrow> (error + 'a slot) list" where
  "returned s = fst s"

definition queue_of :: "'a state \<Rightarrow> queue" where
  "queue_of s = fst (snd s)"

definition heap_of :: "'a state \<Rightarrow> 'a heap" where
  "heap_of s = snd (snd s)"

text \<open>\<open>*(queue.data() + i)\<close> after a run.\<close>

definition inspect :: "int \<Rightarrow> 'a state \<Rightarrow> 'a slot" where
  "inspect i s = deref (heap_of s) (data (queue_of s)) i"

text \<open>A free store with nothing allocated and \<open>n\<close> bytes to give.\<close>

definition empty_heap :: "nat \<Rightarrow> 'a heap" where
  "empty_heap n = \<lparr>cells = (\<lambda>p i. Raw), brk = 0, avail = n, trace = []\<rparr>"

text \<open>
  A test body: construct a queue of the given capacity, then make the calls. \<open>None\<close>
  when the constructor throws or a \<open>pop\<close> never returns.
\<close>

definition exec :: "nat \<Rightarrow> int \<Rightarrow> 'a heap \<Rightarrow> 'a call list \<Rightarrow> 'a state option" where
  "exec sizeof_T capacity h cs =
     (case Queue sizeof_T capacity h of
        Inl e \<Rightarrow> None
      | Inr (q, h') \<Rightarrow> run cs ([], q, h'))"

text \<open>The element offset an access touches.\<close>

fun offset :: "event \<Rightarrow> int" where
  "offset (PlacementNew p i) = i"
| "offset (Assign p i) = i"
| "offset (Destroy p i) = i"

section \<open>The loops\<close>

declare shift_loop.simps [simp del] copy_loop.simps [simp del]


lemma shift_loop_cells:
  "cells (shift_loop p i n h) p' j =
     (if p' = p \<and> i - 1 \<le> j \<and> j < n - 1 then cells h p (j + 1) else cells h p' j)"
proof (induction p i n h rule: shift_loop.induct)
  case (1 p i n h)
  show ?case
  proof (cases "i < n")
    case True
    then show ?thesis
      using "1.IH" [OF True] by (subst shift_loop.simps) (auto simp: assign_def)
  next
    case False
    then show ?thesis by (subst shift_loop.simps) auto
  qed
qed

lemma shift_loop_brk: "brk (shift_loop p i n h) = brk h"
  by (induction p i n h rule: shift_loop.induct) (subst shift_loop.simps, simp add: assign_def)

lemma shift_loop_avail: "avail (shift_loop p i n h) = avail h"
  by (induction p i n h rule: shift_loop.induct) (subst shift_loop.simps, simp add: assign_def)

lemma shift_loop_trace:
  "trace (shift_loop p i n h) = trace h @ map (\<lambda>j. Assign p (j - 1)) [i..n - 1]"
proof (induction p i n h rule: shift_loop.induct)
  case (1 p i n h)
  show ?case
  proof (cases "i < n")
    case True
    then show ?thesis
      using "1.IH" [OF True] by (subst shift_loop.simps) (simp add: assign_def upto_rec1 [of i])
  next
    case False
    then show ?thesis by (subst shift_loop.simps) auto
  qed
qed

lemma copy_loop_cells:
  "dst \<noteq> src \<Longrightarrow> cells (copy_loop dst src i n h) p' j =
     (if p' = dst \<and> i \<le> j \<and> j < n then cells h src j else cells h p' j)"
proof (induction dst src i n h rule: copy_loop.induct)
  case (1 dst src i n h)
  show ?case
  proof (cases "i < n")
    case True
    then show ?thesis
      using "1.IH" [OF True "1.prems"] "1.prems"
      by (subst copy_loop.simps) (auto simp: placement_new_def)
  next
    case False
    then show ?thesis by (subst copy_loop.simps) auto
  qed
qed

section \<open>The member functions, one call at a time\<close>

lemma contents_length: "length (contents q h) = nat (m_filled q)"
  by (simp add: contents_def count_def)

lemma contents_nth: "k < nat (m_filled q) \<Longrightarrow> contents q h ! k = cells h (m_data q) (int k)"
  by (simp add: contents_def count_def deref_def data_def)

lemma value_of_shift_loop:
  "value_of (shift_loop p i n h) r =
     (case r of
        Object v \<Rightarrow> Live v
      | Element p' j \<Rightarrow>
          (if p' = p \<and> i - 1 \<le> j \<and> j < n - 1 then cells h p (j + 1) else cells h p' j))"
  by (simp add: value_of_def shift_loop_cells split: cref.splits)

lemma push_fields:
  "push r q h = (q', h') \<Longrightarrow>
     m_data q' = m_data q \<and> m_capacity q' = m_capacity q \<and>
     m_filled q' = (if m_filled q < m_capacity q then m_filled q + 1 else m_filled q)"
  by (auto simp: push_def Let_def split: if_splits)

lemma push_cells:
  "push r q h = (q', h') \<Longrightarrow>
     cells h' p j =
       (if p = m_data q then
          (if m_filled q < m_capacity q
           then (if j = m_filled q then value_of h r else cells h p j)
           else (if j = m_filled q - 1
                 then value_of (shift_loop (m_data q) 1 (m_filled q) h) r
                 else if 0 \<le> j \<and> j < m_filled q - 1 then cells h p (j + 1)
                 else cells h p j))
        else cells h p j)"
  by (auto simp: push_def Let_def placement_new_def assign_def shift_loop_cells
      split: if_splits)

lemma push_not_full_contents:
  assumes "m_filled q < m_capacity q" "0 \<le> m_filled q" "push r q h = (q', h')"
  shows "contents q' h' = contents q h @ [value_of h r]"
proof (rule nth_equalityI)
  show "length (contents q' h') = length (contents q h @ [value_of h r])"
    using assms by (simp add: contents_length push_fields [OF assms(3)] nat_add_distrib)
next
  fix k assume "k < length (contents q' h')"
  then have k: "k < nat (m_filled q + 1)"
    using assms by (simp add: contents_length push_fields [OF assms(3)])
  then show "contents q' h' ! k = (contents q h @ [value_of h r]) ! k"
    using assms
    by (auto simp: contents_nth contents_length push_fields [OF assms(3)]
        push_cells [OF assms(3)] nth_append)
qed

lemma push_full_contents:
  assumes "\<not> m_filled q < m_capacity q" "1 \<le> m_filled q" "push r q h = (q', h')"
  shows "contents q' h' =
           tl (contents q h) @ [value_of (shift_loop (m_data q) 1 (m_filled q) h) r]"
    (is "_ = ?rhs")
proof (rule nth_equalityI)
  show "length (contents q' h') = length ?rhs"
    using assms by (simp add: contents_length push_fields [OF assms(3)])
next
  fix k assume "k < length (contents q' h')"
  then have k: "k < nat (m_filled q)"
    using assms by (simp add: contents_length push_fields [OF assms(3)])
  then show "contents q' h' ! k = ?rhs ! k"
    using assms
    by (auto simp: contents_nth contents_length push_fields [OF assms(3)]
        push_cells [OF assms(3)] nth_append nth_tl add.commute)
qed

lemma pop_fields:
  "pop q h = Some (v, q', h') \<Longrightarrow>
     m_filled q \<noteq> 0 \<and> v = cells h (m_data q) 0 \<and>
     m_data q' = m_data q \<and> m_capacity q' = m_capacity q \<and> m_filled q' = m_filled q - 1"
  by (auto simp: pop_def Let_def split: if_splits)

lemma pop_cells:
  "pop q h = Some (v, q', h') \<Longrightarrow>
     cells h' p j =
       (if p = m_data q then
          (if j = m_filled q then Raw
           else if 0 \<le> j \<and> j < m_filled q - 1 then cells h p (j + 1)
           else cells h p j)
        else cells h p j)"
  by (auto simp: pop_def Let_def destroy_def shift_loop_cells split: if_splits)

lemma pop_returns: "m_filled q \<noteq> 0 \<Longrightarrow> \<exists>v q' h'. pop q h = Some (v, q', h')"
  by (simp add: pop_def Let_def)

lemma pop_contents:
  assumes "pop q h = Some (v, q', h')" "1 \<le> m_filled q"
  shows "contents q' h' = tl (contents q h)" and "v = hd (contents q h)"
proof -
  show "contents q' h' = tl (contents q h)"
  proof (rule nth_equalityI)
    show "length (contents q' h') = length (tl (contents q h))"
      using assms by (simp add: contents_length pop_fields [OF assms(1)])
  next
    fix k assume "k < length (contents q' h')"
    then have k: "k < nat (m_filled q - 1)"
      using assms by (simp add: contents_length pop_fields [OF assms(1)])
    then show "contents q' h' ! k = tl (contents q h) ! k"
      using assms
      by (auto simp: contents_nth contents_length pop_fields [OF assms(1)]
          pop_cells [OF assms(1)] nth_tl add.commute)
  qed
  have "contents q h \<noteq> []"
    using assms(2) contents_length [of q h] by auto
  then show "v = hd (contents q h)"
    using assms contents_nth [of 0 q h] by (simp add: hd_conv_nth pop_fields [OF assms(1)])
qed

section \<open>Sequences of calls\<close>

lemma run_append:
  "run (as @ bs) s = (case run as s of None \<Rightarrow> None | Some s' \<Rightarrow> run bs s')"
  by (induction as arbitrary: s) (auto split: option.splits)

lemma drop_last_window:
  "drop (length (drop (length us - c) us @ zs) - c) (drop (length us - c) us @ zs) =
   drop (length (us @ zs) - c) (us @ zs)"
  by (cases "length us \<le> c") (auto simp: add.commute)

lemma push_window:
  assumes "0 \<le> m_filled q" "m_filled q \<le> m_capacity q" "1 \<le> m_capacity q"
    and "push (Object x) q h = (q', h')"
  shows "contents q' h' =
           drop (length (contents q h @ [Live x]) - nat (m_capacity q)) (contents q h @ [Live x])"
proof (cases "m_filled q < m_capacity q")
  case True
  then show ?thesis
    using assms push_not_full_contents [OF True assms(1) assms(4)]
    by (simp add: contents_length value_of_def)
next
  case False
  then have full: "m_filled q = m_capacity q" using assms by simp
  then have ne: "contents q h \<noteq> []" using assms contents_length [of q h] by auto
  have "contents q' h' = tl (contents q h) @ [Live x]"
    using push_full_contents [OF False _ assms(4)] assms full
    by (simp add: value_of_shift_loop)
  moreover have "length (contents q h) = nat (m_capacity q)"
    using full by (simp add: contents_length)
  ultimately show ?thesis
    using ne by (cases "contents q h") auto
qed

lemma run_pushes:
  assumes "0 \<le> m_filled q" "m_filled q \<le> m_capacity q" "1 \<le> m_capacity q"
  shows "\<exists>q' h'. run (map Push xs) (out, q, h) = Some (out, q', h') \<and>
           m_data q' = m_data q \<and> m_capacity q' = m_capacity q \<and>
           0 \<le> m_filled q' \<and> m_filled q' \<le> m_capacity q' \<and>
           contents q' h' =
             drop (length (contents q h @ map Live xs) - nat (m_capacity q))
               (contents q h @ map Live xs)"
  using assms
proof (induction xs arbitrary: q h)
  case Nil
  then show ?case by (simp add: contents_length)
next
  case (Cons x xs)
  obtain q1 h1 where p: "push (Object x) q h = (q1, h1)" by (cases "push (Object x) q h")
  note f = push_fields [OF p]
  have w: "contents q1 h1 =
      drop (length (contents q h @ [Live x]) - nat (m_capacity q)) (contents q h @ [Live x])"
    using push_window [OF Cons.prems p] .
  have inv1: "0 \<le> m_filled q1" "m_filled q1 \<le> m_capacity q1" "1 \<le> m_capacity q1"
    using f Cons.prems by (auto split: if_splits)
  from Cons.IH [OF inv1, of h1] obtain q' h' where
    r: "run (map Push xs) (out, q1, h1) = Some (out, q', h')"
    and d: "m_data q' = m_data q1" "m_capacity q' = m_capacity q1"
    and i: "0 \<le> m_filled q'" "m_filled q' \<le> m_capacity q'"
    and c: "contents q' h' =
             drop (length (contents q1 h1 @ map Live xs) - nat (m_capacity q1))
               (contents q1 h1 @ map Live xs)"
    by blast
  have "contents q' h' =
      drop (length ((contents q h @ [Live x]) @ map Live xs) - nat (m_capacity q))
        ((contents q h @ [Live x]) @ map Live xs)"
    unfolding c w using f drop_last_window [of "contents q h @ [Live x]" "nat (m_capacity q)" "map Live xs"]
    by simp
  then show ?case
    using r d i f p by simp
qed

lemma run_pops:
  assumes "int k \<le> m_filled q"
  shows "\<exists>q' h'. run (replicate k Pop) (out, q, h) =
             Some (out @ map Inr (take k (contents q h)), q', h') \<and>
           m_data q' = m_data q \<and> m_capacity q' = m_capacity q \<and>
           m_filled q' = m_filled q - int k \<and>
           contents q' h' = drop k (contents q h)"
  using assms
proof (induction k arbitrary: out q h)
  case 0
  then show ?case by simp
next
  case (Suc k)
  then have pos: "1 \<le> m_filled q" by simp
  then obtain v q1 h1 where p: "pop q h = Some (v, q1, h1)"
    using pop_returns [of q h] by auto
  note f = pop_fields [OF p]
  note c = pop_contents [OF p pos]
  have ne: "contents q h \<noteq> []" using pos contents_length [of q h] by auto
  have "int k \<le> m_filled q1" using f Suc.prems by simp
  from Suc.IH [OF this, of "out @ [Inr v]" h1] obtain q' h' where
    r: "run (replicate k Pop) (out @ [Inr v], q1, h1) =
          Some ((out @ [Inr v]) @ map Inr (take k (contents q1 h1)), q', h')"
    and d: "m_data q' = m_data q1" "m_capacity q' = m_capacity q1"
      "m_filled q' = m_filled q1 - int k" "contents q' h' = drop k (contents q1 h1)"
    by blast
  have t: "take (Suc k) (contents q h) = v # take k (contents q1 h1)"
    using ne c by (cases "contents q h") auto
  show ?case
    using r d f p c t by (simp add: drop_Suc)
qed

section \<open>Construction and the capacity invariant\<close>

lemma Queue_Inr:
  "Queue sz n h = Inr (q, h') \<Longrightarrow>
     q = \<lparr>m_data = brk h, m_filled = 0, m_capacity = n\<rparr> \<and>
     cells h' = (cells h)(brk h := (\<lambda>i. Raw)) \<and> brk h' = Suc (brk h) \<and> trace h' = trace h"
  by (auto simp: Queue_def operator_new_def split: if_splits)

lemma Queue_empty_heap:
  "alloc_request n sz \<le> a \<Longrightarrow>
   Queue sz n (empty_heap a) =
     Inr (\<lparr>m_data = 0, m_filled = 0, m_capacity = n\<rparr>,
          \<lparr>cells = (\<lambda>p i. Raw), brk = 1, avail = a - alloc_request n sz, trace = []\<rparr>)"
  by (auto simp: Queue_def operator_new_def empty_heap_def fun_eq_iff)

lemma alloc_request_eq: "alloc_request n sz = nat ((n * int sz) mod 2 ^ 64)"
  by (simp add: alloc_request_def mod_mult_left_eq)

lemma alloc_request_small:
  assumes "0 \<le> n" "n * int sz < 2 ^ 64"
  shows "alloc_request n sz = nat n * sz"
proof -
  have "0 \<le> n * int sz" using assms(1) by simp
  then have "(n * int sz) mod 2 ^ 64 = n * int sz"
    using assms(2) by simp
  then show ?thesis
    using assms(1) by (simp add: alloc_request_eq nat_mult_distrib)
qed

lemma alloc_request_zero: "alloc_request 0 sz = 0"
  by (simp add: alloc_request_def)

lemma alloc_request_negative:
  assumes "n < 0" "- (2 ^ 31) \<le> n" "0 < sz" "sz < 2 ^ 32"
  shows "2 ^ 63 \<le> alloc_request n sz"
proof -
  let ?m = "n * int sz"
  have neg: "?m < 0"
    using assms(1,3) by (simp add: mult_neg_pos)
  have "(- n) * int sz \<le> 2 ^ 31 * 2 ^ 32"
    using assms by (intro mult_mono) auto
  then have lo: "- (2 ^ 63) \<le> ?m" by simp
  have "?m mod 2 ^ 64 = (?m + 2 ^ 64) mod 2 ^ 64" by simp
  also have "\<dots> = ?m + 2 ^ 64"
    using neg lo by (intro mod_pos_pos_trivial) auto
  finally have "?m mod 2 ^ 64 = ?m + 2 ^ 64" .
  then have "(2 ^ 63 :: int) \<le> ?m mod 2 ^ 64" using lo by simp
  then have "nat (2 ^ 63) \<le> nat (?m mod 2 ^ 64)" by (rule nat_mono)
  then show ?thesis by (simp add: alloc_request_eq)
qed

lemma step_fields:
  "step c (out, q, h) = Some (out', q', h') \<Longrightarrow>
     m_data q' = m_data q \<and> m_capacity q' = m_capacity q"
  by (cases c)
    (auto simp: push_def pop_def popWithTimeout_def Let_def split: if_splits slot.splits)

lemma step_count:
  assumes "step c (out, q, h) = Some (out', q', h')"
    and "0 \<le> m_filled q" "m_filled q \<le> m_capacity q"
  shows "0 \<le> m_filled q' \<and> m_filled q' \<le> m_capacity q'"
  using assms
  by (cases c)
    (auto simp: push_def pop_def popWithTimeout_def Let_def split: if_splits slot.splits)

lemma run_count:
  assumes "run cs (out, q, h) = Some (out', q', h')"
    and "0 \<le> m_filled q" "m_filled q \<le> m_capacity q"
  shows "0 \<le> m_filled q' \<and> m_filled q' \<le> m_capacity q' \<and> m_capacity q' = m_capacity q
     \<and> m_data q' = m_data q"
  using assms
proof (induction cs arbitrary: out q h)
  case Nil
  then show ?case by simp
next
  case (Cons c cs)
  from Cons.prems(1) obtain out1 q1 h1 where
    s: "step c (out, q, h) = Some (out1, q1, h1)" and r: "run cs (out1, q1, h1) = Some (out', q', h')"
    by (auto split: option.splits)
  from step_count [OF s Cons.prems(2,3)] step_fields [OF s] Cons.IH [OF r]
  show ?case by simp
qed


lemmas eval_defs = push_def pop_def popWithTimeout_def placement_new_def assign_def destroy_def
  value_of_def
  shift_loop.simps Let_def

section \<open>Calls and the rest of the free store\<close>

lemma popWithTimeout_pop:
  "popWithTimeout ms q h =
     (case pop q h of
        None \<Rightarrow> (Inl (system_error operation_would_block ''Queue: pop() timeout''), q, h)
      | Some (v, q', h') \<Rightarrow> (Inr v, q', h'))"
  by (simp add: popWithTimeout_def pop_def Let_def)

lemma step_cases:
  assumes "step c (out, q, h) = Some (out', q', h')"
  obtains r where "push r q h = (q', h')" "value_of h r \<noteq> Raw"
  | v where "pop q h = Some (v, q', h')"
  | "q' = q" "h' = h"
  using assms
  by (cases c)
    (auto simp: popWithTimeout_pop value_of_def split: option.splits prod.splits slot.splits)

lemma step_other_block:
  assumes "step c (out, q, h) = Some (out', q', h')" and "p \<noteq> m_data q"
  shows "cells h' p = cells h p"
  using assms(1)
proof (cases rule: step_cases)
  case (1 r)
  then show ?thesis using assms(2) by (simp add: fun_eq_iff push_cells)
next
  case (2 v)
  then show ?thesis using assms(2) by (simp add: fun_eq_iff pop_cells)
next
  case 3
  then show ?thesis by simp
qed

lemma step_store:
  assumes "step c (out, q, h) = Some (out', q', h')"
  shows "brk h' = brk h \<and> avail h' = avail h"
  using assms
  by (cases c)
    (auto simp: push_def pop_def popWithTimeout_def Let_def placement_new_def assign_def
      destroy_def shift_loop_brk shift_loop_avail split: if_splits slot.splits)

lemma run_other_block:
  assumes "run cs (out, q, h) = Some (out', q', h')" and "p \<noteq> m_data q"
  shows "cells h' p = cells h p"
  using assms
proof (induction cs arbitrary: out q h)
  case Nil
  then show ?case by simp
next
  case (Cons c cs)
  from Cons.prems(1) obtain out1 q1 h1 where
    s: "step c (out, q, h) = Some (out1, q1, h1)" and r: "run cs (out1, q1, h1) = Some (out', q', h')"
    by (auto split: option.splits)
  have "p \<noteq> m_data q1" using step_fields [OF s] Cons.prems(2) by simp
  from Cons.IH [OF r this] step_other_block [OF s Cons.prems(2)] show ?case by simp
qed

lemma run_store:
  assumes "run cs (out, q, h) = Some (out', q', h')"
  shows "brk h' = brk h \<and> avail h' = avail h"
  using assms
proof (induction cs arbitrary: out q h)
  case Nil
  then show ?case by simp
next
  case (Cons c cs)
  from Cons.prems(1) obtain out1 q1 h1 where
    s: "step c (out, q, h) = Some (out1, q1, h1)" and r: "run cs (out1, q1, h1) = Some (out', q', h')"
    by (auto split: option.splits)
  from Cons.IH [OF r] step_store [OF s] show ?case by simp
qed

lemma step_live:
  assumes "step c (out, q, h) = Some (out', q', h')"
    and "\<forall>i. 0 \<le> i \<and> i < m_filled q \<longrightarrow> (\<exists>v. cells h (m_data q) i = Live v)"
  shows "\<forall>i. 0 \<le> i \<and> i < m_filled q' \<longrightarrow> (\<exists>v. cells h' (m_data q') i = Live v)"
  using assms(1)
proof (cases rule: step_cases)
  case (1 r)
  have live: "\<exists>v. value_of h r = Live v"
    using 1(2) by (cases "value_of h r") auto
  have "\<exists>v. value_of (shift_loop (m_data q) 1 (m_filled q) h) r = Live v"
    if "1 \<le> m_filled q"
    using live assms(2) that
    by (cases r) (auto simp: value_of_def shift_loop_cells)
  then show ?thesis
    using assms(2) live push_fields [OF 1(1)]
    by (auto simp: push_cells [OF 1(1)] split: if_splits)
next
  case (2 v)
  show ?thesis
    using assms(2) pop_fields [OF 2] by (auto simp: pop_cells [OF 2])
next
  case 3
  then show ?thesis using assms(2) by simp
qed

lemma run_live:
  assumes "run cs (out, q, h) = Some (out', q', h')"
    and "\<forall>i. 0 \<le> i \<and> i < m_filled q \<longrightarrow> (\<exists>v. cells h (m_data q) i = Live v)"
  shows "\<forall>i. 0 \<le> i \<and> i < m_filled q' \<longrightarrow> (\<exists>v. cells h' (m_data q') i = Live v)"
  using assms
proof (induction cs arbitrary: out q h)
  case Nil
  then show ?case by simp
next
  case (Cons c cs)
  from Cons.prems(1) obtain out1 q1 h1 where
    s: "step c (out, q, h) = Some (out1, q1, h1)" and r: "run cs (out1, q1, h1) = Some (out', q', h')"
    by (auto split: option.splits)
  from Cons.IH [OF r step_live [OF s Cons.prems(2)]] show ?case .
qed

lemma Queue_copy_Inr:
  assumes "Queue_copy sz src h = Inr (c, h1)"
  shows "m_data c = brk h" "m_filled c = m_filled src" "m_capacity c = m_capacity src"
    and "m_data src \<noteq> brk h \<Longrightarrow>
         cells h1 p j =
           (if p = brk h then (if 0 \<le> j \<and> j < m_filled src then cells h (m_data src) j else Raw)
            else cells h p j)"
  using assms
  by (auto simp: Queue_copy_def operator_new_def copy_loop_cells split: if_splits)

section \<open>The accesses of one call\<close>

lemma pop_trace:
  assumes "pop q h = Some (v, q', h')"
  shows "trace h' = trace h @ map (\<lambda>i. Assign (m_data q) (i - 1)) [1..m_filled q - 1]
                      @ [Destroy (m_data q) (m_filled q)]"
  using assms by (auto simp: pop_def Let_def destroy_def shift_loop_trace split: if_splits)

lemma push_trace:
  assumes "push x q h = (q', h')"
  shows "trace h' = trace h @
           (if m_filled q < m_capacity q then [PlacementNew (m_data q) (m_filled q)]
            else map (\<lambda>i. Assign (m_data q) (i - 1)) [1..m_filled q - 1]
                   @ [Assign (m_data q) (m_filled q - 1)])"
  using assms
  by (auto simp: push_def Let_def placement_new_def assign_def shift_loop_trace split: if_splits)

lemma push_writes_in_range:
  assumes "push x q h = (q', h')" and "0 \<le> m_filled q" "m_filled q \<le> m_capacity q"
    and "1 \<le> m_capacity q"
  shows "\<forall>e \<in> set (drop (length (trace h)) (trace h')). 0 \<le> offset e \<and> offset e < m_capacity q"
  using assms(2-) by (auto simp: push_trace [OF assms(1)])

section \<open>Evaluating test bodies\<close>

lemma exec_empty_heap:
  "alloc_request n sz \<le> a \<Longrightarrow>
   exec sz n (empty_heap a) cs =
     run cs ([], \<lparr>m_data = 0, m_filled = 0, m_capacity = n\<rparr>,
             \<lparr>cells = (\<lambda>p i. Raw), brk = 1, avail = a - alloc_request n sz, trace = []\<rparr>)"
  by (simp add: exec_def Queue_empty_heap)

lemmas observe_defs = returned_def queue_of_def heap_of_def inspect_def deref_def data_def
  count_def size_q_def

section \<open>Pushes of elements that the loop does not overwrite\<close>

text \<open>
  On a full queue of capacity at least 1, \<open>push\<close> with an element that is not one of the
  slots \<open>0 .. count - 2\<close> of the queue itself keeps the former elements without the
  oldest and appends the element as it was at the call.
\<close>

lemma push_full_unaliased:
  assumes "count q = size_q q" and "1 \<le> size_q q" and "push r q h = (q', h')"
    and "\<forall>i. r = Element (data q) i \<longrightarrow> i < 0 \<or> count q - 1 \<le> i"
  shows "contents q' h' = tl (contents q h) @ [value_of h r] \<and>
         count q' = size_q q' \<and> size_q q' = size_q q \<and>
         trace h' = trace h @ map (\<lambda>i. Assign (data q) (i - 1)) [1..count q - 1]
                      @ [Assign (data q) (count q - 1)]"
proof -
  have full: "\<not> m_filled q < m_capacity q" and pos: "1 \<le> m_filled q"
    using assms(1,2) by (simp_all add: count_def size_q_def)
  have "trace h' = trace h @ map (\<lambda>i. Assign (m_data q) (i - 1)) [1..m_filled q - 1]
                      @ [Assign (m_data q) (m_filled q - 1)]"
    using assms(3) full by (auto simp: push_def Let_def assign_def shift_loop_trace)
  moreover have "value_of (shift_loop (m_data q) 1 (m_filled q) h) r = value_of h r"
    using assms(4)
    by (cases r) (auto simp: value_of_def shift_loop_cells count_def data_def)
  ultimately show ?thesis
    using push_full_contents [OF full pos assms(3)] push_fields [OF assms(3)] assms(1) full
    by (simp add: count_def size_q_def data_def)
qed

text \<open>The test of the repository: capacity 3, pushes 1, 2, 3, then 10, then 25 and 33.\<close>

lemma push_full_test:
  "\<exists>q0 h0 q3 h3 q4 h4 q6 h6.
     Queue 4 3 (empty_heap 12 :: int heap) = Inr (q0, h0) \<and>
     run [Push 1, Push 2, Push 3] ([], q0, h0) = Some ([], q3, h3) \<and>
     contents q3 h3 = [Live 1, Live 2, Live 3] \<and> count q3 = size_q q3 \<and> 1 \<le> size_q q3 \<and>
     push (Object 10) q3 h3 = (q4, h4) \<and>
     contents q4 h4 = [Live 2, Live 3, Live 10] \<and> count q4 = 3 \<and>
     run [Push 25, Push 33] ([], q4, h4) = Some ([], q6, h6) \<and>
     contents q6 h6 = [Live 10, Live 25, Live 33] \<and> count q6 = 3"
proof -
  obtain q0 h0 where c: "Queue 4 3 (empty_heap 12 :: int heap) = Inr (q0, h0)"
    using Queue_empty_heap [of 3 4 12] by (simp add: alloc_request_small)
  have q0: "m_filled q0 = 0" "m_capacity q0 = 3"
    using Queue_Inr [OF c] by simp_all
  have e: "contents q0 h0 = []"
    using contents_length [of q0 h0] q0 by simp
  from run_pushes [of q0 "[1, 2, 3]" "[]" h0] q0 e obtain q3 h3 where
    r3: "run [Push 1, Push 2, Push 3] ([], q0, h0) = Some ([], q3, h3)"
    and f3: "m_capacity q3 = 3" "0 \<le> m_filled q3"
    and c3: "contents q3 h3 = [Live 1, Live 2, Live 3]"
    by auto
  have n3: "m_filled q3 = 3"
    using contents_length [of q3 h3] c3 f3 by simp
  obtain q4 h4 where p: "push (Object 10) q3 h3 = (q4, h4)"
    by (cases "push (Object 10) q3 h3")
  have full: "count q3 = size_q q3" "1 \<le> size_q q3"
    using f3 n3 by (simp_all add: count_def size_q_def)
  from push_full_unaliased [OF full p] c3 f3 have
    c4: "contents q4 h4 = [Live 2, Live 3, Live 10]" and f4: "m_filled q4 = 3" "m_capacity q4 = 3"
    by (simp_all add: count_def size_q_def value_of_def)
  from run_pushes [of q4 "[25, 33]" "[]" h4] f4 c4 obtain q6 h6 where
    r6: "run [Push 25, Push 33] ([], q4, h4) = Some ([], q6, h6)"
    and f6: "m_capacity q6 = 3" "0 \<le> m_filled q6"
    and c6: "contents q6 h6 = [Live 10, Live 25, Live 33]"
    by auto
  have n6: "m_filled q6 = 3"
    using contents_length [of q6 h6] c6 f6 by simp
  show ?thesis
    using c r3 c3 full p c4 f4 r6 c6 n6 by (simp add: count_def)
qed

text \<open>
  Pushing the objects \<open>xs\<close> into a freshly constructed queue of capacity \<open>n > 0\<close> and then
  popping as often as the queue has elements returns the last \<open>n\<close> of them in the order
  they were pushed; no \<open>pop\<close> of the sequence waits forever.
\<close>

lemma fifo_objects:
  assumes "0 < n" and "Queue sz n h0 = Inr (q0, h1)"
  shows "\<exists>q h. run (map Push xs @ replicate (min (length xs) (nat n)) Pop) ([], q0, h1) =
                  Some (map (Inr \<circ> Live) (drop (length xs - nat n) xs), q, h) \<and>
               count q = 0"
proof -
  have q0: "m_filled q0 = 0" "m_capacity q0 = n"
    using Queue_Inr [OF assms(2)] by simp_all
  have e: "contents q0 h1 = []"
    using contents_length [of q0 h1] q0 by simp
  from run_pushes [of q0 xs "[]" h1] q0 assms(1) e obtain q1 h2 where
    r1: "run (map Push xs) ([], q0, h1) = Some ([], q1, h2)"
    and f1: "0 \<le> m_filled q1"
    and c1: "contents q1 h2 = drop (length xs - nat n) (map Live xs)"
    by auto
  let ?k = "min (length xs) (nat n)"
  have len: "length (contents q1 h2) = ?k"
    unfolding c1 by auto
  then have k: "m_filled q1 = int ?k"
    using contents_length [of q1 h2] f1 by simp
  from run_pops [of ?k q1 "[]" h2] k obtain q h where
    r2: "run (replicate ?k Pop) ([], q1, h2) = Some (map Inr (take ?k (contents q1 h2)), q, h)"
    and f2: "m_filled q = 0"
    by auto
  have "take ?k (contents q1 h2) = contents q1 h2"
    using len by simp
  then have "run (replicate ?k Pop) ([], q1, h2) =
      Some (map (Inr \<circ> Live) (drop (length xs - nat n) xs), q, h)"
    using r2 c1 by (simp add: drop_map)
  then show ?thesis
    using r1 f2 by (auto simp: run_append count_def)
qed

lemma fifo_test:
  "\<exists>q0 h1 q h q0' h1' q' h'.
     Queue 4 3 (empty_heap 12 :: int heap) = Inr (q0, h1) \<and>
     run [Push 1, Push 2, Push 3, Pop, Pop, Pop] ([], q0, h1)
       = Some ([Inr (Live 1), Inr (Live 2), Inr (Live 3)], q, h) \<and> count q = 0 \<and>
     Queue 4 2 (empty_heap 8 :: int heap) = Inr (q0', h1') \<and>
     run [Push 1, Push 2, Push 3, Pop, Pop] ([], q0', h1')
       = Some ([Inr (Live 2), Inr (Live 3)], q', h') \<and> count q' = 0"
proof -
  obtain q0 h1 where c: "Queue 4 3 (empty_heap 12 :: int heap) = Inr (q0, h1)"
    using Queue_empty_heap [of 3 4 12] by (simp add: alloc_request_small)
  obtain q0' h1' where c': "Queue 4 2 (empty_heap 8 :: int heap) = Inr (q0', h1')"
    using Queue_empty_heap [of 2 4 8] by (simp add: alloc_request_small)
  from fifo_objects [OF _ c, of "[1, 2, 3]"] fifo_objects [OF _ c', of "[1, 2, 3]"] c c'
  show ?thesis
    by (simp add: numeral_3_eq_3 numeral_2_eq_2)
qed

section \<open>Claims\<close>

subsection \<open>Push on a full queue\<close>

text \<open>
  Claim C1 says that \<open>push x\<close> on a full queue leaves the former elements without the
  oldest, followed by \<open>x\<close>. \<open>push\<close> takes \<open>x\<close> by reference and, on a full queue, reads it
  only after the loop has moved the elements. With a queue of capacity 2 holding 1 and 2,
  \<open>q.push(q.data()[0])\<close> passes the element 1; the loop overwrites slot 0 with 2, and the
  queue ends as 2, 2 where the claim has 2, 1.
\<close>

theorem push_full_aliased_element:
  "map_option (count \<circ> queue_of) (exec 4 2 (empty_heap 8 :: int heap) [Push 1, Push 2])
     = Some 2 \<and>
   map_option (inspect 0) (exec 4 2 (empty_heap 8 :: int heap) [Push 1, Push 2])
     = Some (Live 1) \<and>
   map_option (inspect 1) (exec 4 2 (empty_heap 8 :: int heap) [Push 1, Push 2])
     = Some (Live 2) \<and>
   map_option (inspect 0) (exec 4 2 (empty_heap 8 :: int heap) [Push 1, Push 2, PushRef 0 0])
     = Some (Live 2) \<and>
   map_option (inspect 1) (exec 4 2 (empty_heap 8 :: int heap) [Push 1, Push 2, PushRef 0 0])
     = Some (Live 2) \<and>
   map_option (count \<circ> queue_of)
       (exec 4 2 (empty_heap 8 :: int heap) [Push 1, Push 2, PushRef 0 0])
     = Some 2"
  by (simp add: exec_empty_heap alloc_request_small eval_defs observe_defs)

subsection \<open>The destructor call of \<open>pop\<close>\<close>

text \<open>
  Claim C2 says that \<open>pop\<close> and \<open>popWithTimeout\<close> destroy the vacated last live slot and
  never a slot outside the live range. The code destroys the slot at offset \<open>m_filled\<close>
  before the decrement, one past the last live slot. On a queue of capacity 3 holding
  one element, the destructor runs on slot 1, which is raw storage, and slot 0 keeps a
  live object; on a queue of capacity 1 the destroyed slot 1 lies past the end of the
  slab.
\<close>

theorem pop_destroys_slot_at_count:
  "map_option (trace \<circ> heap_of) (exec 4 3 (empty_heap 12 :: int heap) [Push 7, Pop])
     = Some [PlacementNew 0 0, Destroy 0 1] \<and>
   map_option (trace \<circ> heap_of) (exec 4 3 (empty_heap 12 :: int heap) [Push 7, PopWithTimeout 100])
     = Some [PlacementNew 0 0, Destroy 0 1] \<and>
   map_option (count \<circ> queue_of) (exec 4 3 (empty_heap 12 :: int heap) [Push 7]) = Some 1 \<and>
   map_option (inspect 1) (exec 4 3 (empty_heap 12 :: int heap) [Push 7]) = Some Raw \<and>
   map_option (inspect 0) (exec 4 3 (empty_heap 12 :: int heap) [Push 7, Pop]) = Some (Live 7) \<and>
   map_option (trace \<circ> heap_of) (exec 4 1 (empty_heap 4 :: int heap) [Push 7, Pop])
     = Some [PlacementNew 0 0, Destroy 0 1]"
  by (simp add: exec_empty_heap alloc_request_small eval_defs observe_defs)

subsection \<open>First in, first out\<close>

text \<open>
  Claim C3 says that the pops return the pushed elements in the order they were pushed,
  without the evicted ones. After pushing 1 and 2 into a queue of capacity 2,
  \<open>q.push(q.data()[0])\<close> pushes the element 1 and evicts the oldest; the claim has the two
  pops return 2 and 1, and they return 2 and 2, since \<open>push\<close> reads its reference
  parameter after the loop has overwritten slot 0.
\<close>

theorem pops_after_aliased_push:
  "map_option (inspect 0) (exec 4 2 (empty_heap 8 :: int heap) [Push 1, Push 2])
     = Some (Live 1) \<and>
   map_option returned
       (exec 4 2 (empty_heap 8 :: int heap) [Push 1, Push 2, PushRef 0 0, Pop, Pop])
     = Some [Inr (Live 2), Inr (Live 2)]"
  by (simp add: exec_empty_heap alloc_request_small eval_defs observe_defs)

subsection \<open>The timeout of \<open>popWithTimeout\<close>\<close>

text \<open>
  Claim C4. On an empty queue, with no push during the wait, \<open>popWithTimeout\<close> throws
  \<open>std::system_error\<close> with \<open>operation_would_block\<close> and returns no element; the queue
  and its storage are as they were before the call. The call throws in no other case,
  and the exception differs from the one of a failed allocation.
\<close>

theorem popWithTimeout_timeout:
  "(count q = 0 \<longrightarrow>
      popWithTimeout ms q h =
        (Inl (system_error operation_would_block ''Queue: pop() timeout''), q, h)) \<and>
   (count q \<noteq> 0 \<longrightarrow> (\<exists>v q' h'. popWithTimeout ms q h = (Inr v, q', h'))) \<and>
   system_error operation_would_block ''Queue: pop() timeout'' \<noteq> bad_alloc"
  by (simp add: popWithTimeout_def count_def Let_def)

theorem popWithTimeout_timeout_witness:
  "\<exists>q h. Queue 4 2 (empty_heap 8 :: int heap) = Inr (q, h) \<and> count q = 0 \<and>
     popWithTimeout 100 q h =
       (Inl (system_error operation_would_block ''Queue: pop() timeout''), q, h)"
proof -
  obtain q h where c: "Queue 4 2 (empty_heap 8 :: int heap) = Inr (q, h)"
    using Queue_empty_heap [of 2 4 8] by (simp add: alloc_request_small)
  have z: "count q = 0" using Queue_Inr [OF c] by (simp add: count_def)
  from popWithTimeout_timeout [of q 100 h] c z show ?thesis by auto
qed

subsection \<open>Construction with a capacity that is not positive\<close>

text \<open>
  Claim C5 says that a capacity \<open>\<le> 0\<close> is rejected at construction. The constructor
  checks nothing. With capacity 0 it requests 0 bytes and returns an empty queue of
  capacity 0, whatever the free store. With a negative capacity the request wraps around
  to at least \<open>2 ^ 63\<close> bytes, so \<open>operator new\<close> throws \<open>std::bad_alloc\<close> and no queue
  comes to exist (for a capacity in the range of \<open>int\<close>, \<open>sizeof(T)\<close> below \<open>2 ^ 32\<close>
  and a free store of less than \<open>2 ^ 63\<close> bytes).
\<close>

theorem Queue_nonpositive_capacity:
  "(\<exists>h'. Queue sz 0 h = Inr (\<lparr>m_data = brk h, m_filled = 0, m_capacity = 0\<rparr>, h')) \<and>
   (n < 0 \<and> - (2 ^ 31) \<le> n \<and> 0 < sz \<and> sz < 2 ^ 32 \<and> avail h < 2 ^ 63 \<longrightarrow>
      Queue sz n h = Inl bad_alloc)"
proof -
  have "Queue sz n h = Inl bad_alloc"
    if "n < 0" "- (2 ^ 31) \<le> n" "0 < sz" "sz < 2 ^ 32" "avail h < 2 ^ 63"
    using alloc_request_negative [OF that(1-4)] that(5)
    by (simp add: Queue_def operator_new_def)
  then show ?thesis
    by (auto simp: Queue_def operator_new_def alloc_request_zero)
qed

theorem Queue_nonpositive_capacity_witness:
  "map_sum id fst (Queue 4 (- 1) (empty_heap 1024 :: int heap)) = Inl bad_alloc \<and>
   map_sum id fst (Queue 4 0 (empty_heap 1024 :: int heap))
     = Inr \<lparr>m_data = 0, m_filled = 0, m_capacity = 0\<rparr>"
proof -
  have "avail (empty_heap 1024 :: int heap) < 2 ^ 63"
    by (simp add: empty_heap_def)
  with Queue_nonpositive_capacity [of 4 "empty_heap 1024 :: int heap" "- 1"]
  show ?thesis by (auto simp: empty_heap_def)
qed

text \<open>
  The claim as stated fails at capacity 0.
\<close>

theorem Queue_capacity_zero_counterexample:
  "map_sum id fst (Queue 4 0 (empty_heap 8 :: int heap))
     = Inr \<lparr>m_data = 0, m_filled = 0, m_capacity = 0\<rparr>"
  by (simp add: Queue_empty_heap alloc_request_zero)

subsection \<open>\<open>pop\<close> and \<open>popWithTimeout\<close> remove alike\<close>

text \<open>
  Claim C6. On a non-empty queue and for a non-negative duration, \<open>popWithTimeout\<close>
  returns the element \<open>pop\<close> returns and leaves the queue and its storage in the state
  \<open>pop\<close> leaves them in.
\<close>

theorem pop_popWithTimeout_agree:
  assumes "0 < count q" and "0 \<le> ms"
  shows "\<exists>v q' h'. pop q h = Some (v, q', h') \<and> popWithTimeout ms q h = (Inr v, q', h')"
  using assms by (simp add: pop_def popWithTimeout_def count_def Let_def)

theorem pop_popWithTimeout_agree_witness:
  "\<exists>q0 h0 q h v q' h'.
     Queue 4 3 (empty_heap 12 :: int heap) = Inr (q0, h0) \<and> push (Object 7) q0 h0 = (q, h) \<and>
     0 < count q \<and> pop q h = Some (v, q', h') \<and> popWithTimeout 100 q h = (Inr v, q', h')"
proof -
  have c: "Queue 4 3 (empty_heap 12 :: int heap) =
      Inr (\<lparr>m_data = 0, m_filled = 0, m_capacity = 3\<rparr>,
           \<lparr>cells = (\<lambda>p i. Raw), brk = 1, avail = 0, trace = []\<rparr>)"
    using Queue_empty_heap [of 3 4 12] by (simp add: alloc_request_small)
  obtain q h where
    p: "push (Object 7) \<lparr>m_data = 0, m_filled = 0, m_capacity = 3\<rparr>
          (\<lparr>cells = (\<lambda>p i. Raw), brk = 1, avail = 0, trace = []\<rparr> :: int heap) = (q, h)"
    by (cases "push (Object 7) \<lparr>m_data = 0, m_filled = 0, m_capacity = 3\<rparr>
          (\<lparr>cells = (\<lambda>p i. Raw), brk = 1, avail = 0, trace = []\<rparr> :: int heap)")
  have pos: "0 < count q"
    using push_fields [OF p] by (simp add: count_def)
  from pop_popWithTimeout_agree [OF pos, of 100 h] c p pos show ?thesis by auto
qed

subsection \<open>The capacity invariant\<close>

text \<open>
  Claim C7. After any sequence of \<open>push\<close>, \<open>pop\<close> and \<open>popWithTimeout\<close> calls on a queue
  constructed with a positive capacity, \<open>0 \<le> count \<le> capacity\<close>, and the capacity is the
  one given at construction. The sequence is arbitrary, so this holds after each of its
  calls.
\<close>

theorem count_within_capacity:
  assumes "0 < n" and "Queue sz n h0 = Inr (q0, h1)"
    and "run cs ([], q0, h1) = Some (out, q, h)"
  shows "0 \<le> count q \<and> count q \<le> size_q q \<and> size_q q = n"
proof -
  have "m_filled q0 = 0" "m_capacity q0 = n"
    using Queue_Inr [OF assms(2)] by simp_all
  with run_count [OF assms(3)] assms(1) show ?thesis
    by (simp add: count_def size_q_def)
qed

theorem count_within_capacity_witness:
  "\<exists>q0 h1 out q h.
     Queue 4 2 (empty_heap 8 :: int heap) = Inr (q0, h1) \<and>
     run [Push 1, Push 2, Push 3, Pop, PopWithTimeout 100, PopWithTimeout 100] ([], q0, h1)
       = Some (out, q, h) \<and>
     0 \<le> count q \<and> count q \<le> size_q q \<and> size_q q = 2"
proof -
  have c: "Queue 4 2 (empty_heap 8 :: int heap) =
      Inr (\<lparr>m_data = 0, m_filled = 0, m_capacity = 2\<rparr>,
           \<lparr>cells = (\<lambda>p i. Raw), brk = 1, avail = 0, trace = []\<rparr>)"
    using Queue_empty_heap [of 2 4 8] by (simp add: alloc_request_small)
  obtain out q h where
    r: "run [Push 1, Push 2, Push 3, Pop, PopWithTimeout 100, PopWithTimeout 100]
          ([], \<lparr>m_data = 0, m_filled = 0, m_capacity = 2\<rparr>,
           \<lparr>cells = (\<lambda>p i. Raw), brk = 1, avail = 0, trace = []\<rparr> :: int heap) = Some (out, q, h)"
    by (simp add: eval_defs)
  from count_within_capacity [OF _ c r] c r show ?thesis by simp
qed

subsection \<open>The copy constructor\<close>

text \<open>
  Claim C8. The copy of a queue whose storage is a block of the free store has the
  capacity and the count of the source and the same elements in the same order, held in
  a block of its own; the source is left as it was. Whatever is then called on the
  source, the contents of the copy stay the same. The test of the repository (capacity 5,
  pushes 2 and 3, copy, more pushes into the original) is the witness.
\<close>

theorem copy_independent:
  assumes "m_data src < brk h" and "Queue_copy sz src h = Inr (c, h1)"
  shows "size_q c = size_q src \<and> count c = count src \<and>
         contents c h1 = contents src h \<and> data c \<noteq> data src \<and>
         contents src h1 = contents src h \<and>
         (\<forall>cs out out' src' h2.
            run cs (out, src, h1) = Some (out', src', h2) \<longrightarrow> contents c h2 = contents c h1)"
proof -
  note f = Queue_copy_Inr(1-3) [OF assms(2)]
  have ne: "m_data src \<noteq> brk h" using assms(1) by simp
  note cl = Queue_copy_Inr(4) [OF assms(2) ne]
  have a: "contents c h1 = contents src h"
    by (auto simp: contents_def deref_def data_def count_def f cl)
  have b: "contents src h1 = contents src h"
    using ne by (simp add: contents_def deref_def data_def count_def cl)
  have "contents c h2 = contents c h1" if "run cs (out, src, h1) = Some (out', src', h2)"
    for cs out out' src' h2
    using run_other_block [OF that, of "m_data c"] f ne
    by (simp add: contents_def deref_def data_def)
  then show ?thesis
    using a b f ne by (auto simp: size_q_def count_def data_def)
qed

theorem copy_independent_witness:
  "\<exists>q0 h0 q h c h1 q' h2.
     Queue 4 5 (empty_heap 64 :: int heap) = Inr (q0, h0) \<and>
     run [Push 2, Push 3] ([], q0, h0) = Some ([], q, h) \<and>
     m_data q < brk h \<and> Queue_copy 4 q h = Inr (c, h1) \<and>
     contents c h1 = [Live 2, Live 3] \<and> count c = 2 \<and> size_q c = 5 \<and>
     run [Push 7, Push 8, Push 9, Push 10] ([], q, h1) = Some ([], q', h2) \<and>
     contents q' h2 = [Live 3, Live 7, Live 8, Live 9, Live 10] \<and>
     contents c h2 = [Live 2, Live 3]"
proof -
  have "Queue 4 5 (empty_heap 64 :: int heap) =
      Inr (\<lparr>m_data = 0, m_filled = 0, m_capacity = 5\<rparr>,
           \<lparr>cells = (\<lambda>p i. Raw), brk = 1, avail = 44, trace = []\<rparr>)"
    using Queue_empty_heap [of 5 4 64] by (simp add: alloc_request_small)
  then obtain q0 h0 where c: "Queue 4 5 (empty_heap 64 :: int heap) = Inr (q0, h0)"
    and a0: "avail h0 = 44"
    by fastforce
  have q0: "m_filled q0 = 0" "m_capacity q0 = 5" "m_data q0 = 0" and b0: "brk h0 = 1"
    using Queue_Inr [OF c] by (simp_all add: empty_heap_def)
  have e: "contents q0 h0 = []"
    using contents_length [of q0 h0] q0 by simp
  from run_pushes [of q0 "[2, 3]" "[]" h0] q0 e obtain q h where
    r: "run [Push 2, Push 3] ([], q0, h0) = Some ([], q, h)"
    and f: "m_capacity q = 5" "0 \<le> m_filled q" "m_data q = 0"
    and cq: "contents q h = [Live 2, Live 3]"
    by auto
  have n: "m_filled q = 2"
    using contents_length [of q h] cq f by simp
  have st: "brk h = 1" "avail h = 44"
    using run_store [OF r] a0 b0 by simp_all
  have lt: "m_data q < brk h" using f st by simp
  obtain cp h1 where k: "Queue_copy 4 q h = Inr (cp, h1)"
    using st f by (simp add: Queue_copy_def operator_new_def alloc_request_small)
  note ind = copy_independent [OF lt k]
  have ch1: "contents q h1 = [Live 2, Live 3]" using ind cq by simp
  from run_pushes [of q "[7, 8, 9, 10]" "[]" h1] f n ch1 obtain q' h2 where
    r2: "run [Push 7, Push 8, Push 9, Push 10] ([], q, h1) = Some ([], q', h2)"
    and c2: "contents q' h2 = [Live 3, Live 7, Live 8, Live 9, Live 10]"
    by auto
  have k1: "contents cp h1 = [Live 2, Live 3]" "count cp = 2" "size_q cp = 5"
    using ind cq n f by (simp_all add: count_def size_q_def)
  from ind r2 have "contents cp h2 = contents cp h1" by blast
  then have k2: "contents cp h2 = [Live 2, Live 3]" using k1 by simp
  show ?thesis
    using c r lt k k1 r2 c2 k2 by blast
qed

subsection \<open>The accessor \<open>data()\<close>\<close>

text \<open>
  Claim C9 says that inspecting an index \<open>\<ge> count\<close> yields no element. \<open>data()\<close> returns
  the base pointer of the whole slab, with no bound. What holds is the live prefix: after
  any sequence of calls on a constructed queue, every index \<open>i\<close> with \<open>0 \<le> i < count\<close>
  holds a live element.
\<close>

theorem data_live_prefix:
  assumes "exec sz n h0 cs = Some s" and "0 \<le> i" and "i < count (queue_of s)"
  shows "\<exists>v. inspect i s = Live v"
proof -
  from assms(1) obtain q0 h1 where c: "Queue sz n h0 = Inr (q0, h1)"
    and r: "run cs ([], q0, h1) = Some s"
    by (auto simp: exec_def split: sum.splits)
  obtain out q h where s: "s = (out, q, h)" by (cases s)
  have "m_filled q0 = 0" using Queue_Inr [OF c] by simp
  then have "\<forall>i. 0 \<le> i \<and> i < m_filled q0 \<longrightarrow> (\<exists>v. cells h1 (m_data q0) i = Live v)"
    by auto
  from run_live [OF r [unfolded s] this] assms(2,3) show ?thesis
    by (simp add: s inspect_def deref_def data_def count_def queue_of_def heap_of_def)
qed

theorem data_live_prefix_witness:
  "map_option (count \<circ> queue_of) (exec 4 2 (empty_heap 8 :: int heap) [Push 1, Push 2, Pop])
     = Some 1 \<and>
   map_option (inspect 0) (exec 4 2 (empty_heap 8 :: int heap) [Push 1, Push 2, Pop])
     = Some (Live 2)"
proof -
  obtain s where e: "exec 4 2 (empty_heap 8 :: int heap) [Push 1, Push 2, Pop] = Some s"
    by (simp add: exec_empty_heap alloc_request_small eval_defs)
  have c: "count (queue_of s) = 1"
    using e by (auto simp: exec_empty_heap alloc_request_small eval_defs observe_defs)
  then have "0 < count (queue_of s)" by simp
  from data_live_prefix [OF e _ this] obtain v where v: "inspect 0 s = Live v"
    by auto
  have "inspect 0 s = Live 2"
    using e by (auto simp: exec_empty_heap alloc_request_small eval_defs observe_defs)
  with v c e show ?thesis by simp
qed

text \<open>
  The claim as stated fails after pushing 1 and 2 into a queue of capacity 2 and popping
  once: the count is 1 and index 1 still yields the element 2.
\<close>

theorem data_beyond_count_counterexample:
  "map_option (inspect 1) (exec 4 2 (empty_heap 8 :: int heap) [Push 1, Push 2, Pop])
     = Some (Live 2) \<and>
   map_option (count \<circ> queue_of) (exec 4 2 (empty_heap 8 :: int heap) [Push 1, Push 2, Pop])
     = Some 1"
  by (simp add: exec_empty_heap alloc_request_small eval_defs observe_defs)

subsection \<open>Push on a queue of capacity 0\<close>

text \<open>
  Claim C10 says that \<open>push\<close> writes only to offsets in \<open>[0, capacity)\<close>, also on a queue
  of capacity 0. There \<open>m_filled < m_capacity\<close> is false, the loop does nothing and the
  element is assigned to offset \<open>m_filled - 1 = -1\<close>, before the slab. (For a capacity of
  at least 1 the writes stay in range, \<open>push_writes_in_range\<close>.)
\<close>

theorem push_capacity_zero_writes_before_storage:
  "map_option (trace \<circ> heap_of) (exec 4 0 (empty_heap 8 :: int heap) [Push 7])
     = Some [Assign 0 (- 1)] \<and>
   map_option (inspect (- 1)) (exec 4 0 (empty_heap 8 :: int heap) [Push 7]) = Some (Live 7) \<and>
   map_option (size_q \<circ> queue_of) (exec 4 0 (empty_heap 8 :: int heap) [Push 7]) = Some 0"
  by (simp add: exec_empty_heap alloc_request_zero eval_defs observe_defs)

end
